theory Spec2Isabelle
  imports Complex_Main
begin

section \<open>The capture and logging backend of the mouse event logger\<close>

text \<open>
  A shallow embedding of class \<open>LoggerCore\<close> of \<open>fps_mouse_tester_and_diagnosis.py\<close>.
  Python's unbounded integers are \<open>int\<close>. The two float quantities of the class, the
  combat threshold and the wall-clock seconds used for the flush interval, are \<open>real\<close>:
  the only float operations of the class are a comparison, a subtraction of two clock
  readings and the division of a deque length by \<open>1000 / 1000.0\<close>, which is exact for
  every length a deque can have. A threshold that is infinite or not a number has no
  counterpart here.

  The clock is an input: every callback receives the readings that \<open>_ts_ms()\<close>,
  \<open>_ts_iso()\<close> and \<open>time.time()\<close> return during that callback.
\<close>

subsection \<open>Constants and the CSV schema\<close>

definition COMBAT_WINDOW_MS :: int where
  "COMBAT_WINDOW_MS = 1000"

text \<open>A CSV field as the code hands it to \<open>csv.writer\<close>: an integer or a string
  (the blank field is the empty string).\<close>

datatype cell = I int | S string

type_synonym row = "cell list"

definition HEADER :: row where
  "HEADER = [S ''timestamp'', S ''ms_since_start'', S ''x'', S ''y'', S ''dx'', S ''dy'',
             S ''ms_since_button_event'', S ''combat_state'', S ''scroll_near_click'',
             S ''event'']"

subsection \<open>State\<close>

datatype error = OSError | Full

datatype listener_obj = Listener

text \<open>The fields of a \<open>LoggerCore\<close> object. \<open>fh\<close> is \<open>_f\<close> and \<open>csvw\<close> is \<open>_csv\<close>; an open
  file object and the writer bound to it are identified by the path they write to.
  The shared queue object \<open>event_queue\<close> lives in the environment below.\<close>

record logger_core =
  filepath :: string
  listener :: "listener_obj option"
  fh :: "string option"
  csvw :: "string option"
  last_flush :: real
  near_click_ms :: int
  combat_cps :: real
  coords_enabled :: bool
  start_ms :: "int option"
  last_btn_ts_ms :: "int option"
  lmb_down_times :: "int list"

text \<open>The tuple forwarded to the user interface, in the order of the source:
  \<open>(ts_iso, ms_since_start, x, y, dx, dy, event, ms_since_button_event,
  scroll_near_click, combat_state)\<close>.\<close>

type_synonym qitem = "string \<times> int \<times> cell \<times> cell \<times> cell \<times> cell \<times> string \<times> int \<times> int \<times> string"

text \<open>\<open>queue.Queue(maxsize)\<close>: a \<open>maxsize\<close> of zero means no bound.\<close>

record evq =
  maxsize :: nat
  items :: "qitem list"

text \<open>
  What the logger acts on outside itself: the files (a path maps to the rows written to
  it; a file of size zero has no rows), which paths \<open>open\<close> accepts, the queue, and a
  count of the \<open>close()\<close> calls made so far. Buffering is not modelled: a row belongs to
  its file once \<open>writerow\<close> has returned, so \<open>flush\<close> and \<open>fsync\<close>, whose failures the
  code swallows, leave the files as they are. \<open>close()\<close> is taken to succeed.
\<close>

record sys =
  fs :: "string \<rightharpoonup> row list"
  can_open :: "string \<Rightarrow> bool"
  event_queue :: evq
  close_calls :: nat

text \<open>The arguments of \<open>_write_row\<close>, under the names of its parameters (suffixed where
  a name is taken).\<close>

record event_record =
  ts_iso :: string
  ms_since_start :: int
  x_field :: cell
  y_field :: cell
  dx_field :: cell
  dy_field :: cell
  event :: string
  ms_since_button_event :: int
  scroll_near_click :: int
  combat_state_field :: string

text \<open>The clock readings of one callback: \<open>_ts_ms()\<close>, \<open>_ts_iso()\<close>, \<open>time.time()\<close>.\<close>

record clock =
  clk_ms :: int
  clk_iso :: string
  clk_time :: real

subsection \<open>Construction\<close>

definition LoggerCore :: "string \<Rightarrow> int \<Rightarrow> real \<Rightarrow> bool \<Rightarrow> real \<Rightarrow> logger_core" where
  "LoggerCore path near thr coords t0 =
     \<lparr>filepath = path, listener = None, fh = None, csvw = None, last_flush = t0,
      near_click_ms = near, combat_cps = thr, coords_enabled = coords,
      start_ms = None, last_btn_ts_ms = None, lmb_down_times = []\<rparr>"

subsection \<open>The rolling click-rate tracker\<close>

text \<open>\<open>while dq and dq[0] < cutoff: dq.popleft()\<close>\<close>

fun prune :: "int \<Rightarrow> int list \<Rightarrow> int list" where
  "prune cutoff [] = []"
| "prune cutoff (t # ts) = (if t < cutoff then prune cutoff ts else t # ts)"

definition record_lmb_down :: "logger_core \<Rightarrow> int \<Rightarrow> logger_core" where
  "record_lmb_down lg now_ms =
     (let cutoff = now_ms - COMBAT_WINDOW_MS
      in lg\<lparr>lmb_down_times := prune cutoff (lmb_down_times lg @ [now_ms])\<rparr>)"

text \<open>The rate \<open>len(self._lmb_down_times) / (COMBAT_WINDOW_MS / 1000.0)\<close>.\<close>

definition cps :: "logger_core \<Rightarrow> real" where
  "cps lg = real (length (lmb_down_times lg)) / (real_of_int COMBAT_WINDOW_MS / 1000)"

definition combat_state :: "logger_core \<Rightarrow> int \<Rightarrow> logger_core \<times> string" where
  "combat_state lg now_ms =
     (let cutoff = now_ms - COMBAT_WINDOW_MS;
          lg' = lg\<lparr>lmb_down_times := prune cutoff (lmb_down_times lg)\<rparr>
      in (lg', if cps lg' \<ge> combat_cps lg' then ''combat'' else ''idle''))"

subsection \<open>Writing a row\<close>

text \<open>\<open>put_nowait\<close> raises \<open>queue.Full\<close> when the queue is bounded and at capacity.\<close>

definition put_nowait :: "qitem \<Rightarrow> evq \<Rightarrow> error + evq" where
  "put_nowait it q =
     (if 0 < maxsize q \<and> maxsize q \<le> length (items q) then Inl Full
      else Inr (q\<lparr>items := items q @ [it]\<rparr>))"

text \<open>\<open>writerow\<close> on the writer bound to the file at \<open>p\<close>.\<close>

definition writerow :: "string \<Rightarrow> row \<Rightarrow> sys \<Rightarrow> sys" where
  "writerow p r sy =
     sy\<lparr>fs := (fs sy)(p \<mapsto> (case fs sy p of None \<Rightarrow> [] | Some c \<Rightarrow> c) @ [r])\<rparr>"

text \<open>The list \<open>_write_row\<close> hands to \<open>writerow\<close>.\<close>

definition csv_row :: "event_record \<Rightarrow> row" where
  "csv_row r = [S (ts_iso r), I (ms_since_start r), x_field r, y_field r, dx_field r,
                dy_field r, I (ms_since_button_event r), S (combat_state_field r),
                I (scroll_near_click r), S (event r)]"

definition write_row :: "logger_core \<Rightarrow> sys \<Rightarrow> real \<Rightarrow> event_record \<Rightarrow> logger_core \<times> sys" where
  "write_row lg sy t r =
     (case csvw lg of
        None \<Rightarrow> (lg, sy)
      | Some p \<Rightarrow>
          (let sy1 = writerow p (csv_row r) sy;
               sy2 = (case put_nowait (ts_iso r, ms_since_start r, x_field r, y_field r,
                                       dx_field r, dy_field r, event r,
                                       ms_since_button_event r, scroll_near_click r,
                                       combat_state_field r) (event_queue sy1) of
                        Inl e \<Rightarrow> sy1
                      | Inr q \<Rightarrow> sy1\<lparr>event_queue := q\<rparr>);
               lg1 = (if t - last_flush lg > 0.5 then lg\<lparr>last_flush := t\<rparr> else lg)
           in (lg1, sy2)))"


subsection \<open>The callbacks\<close>

text \<open>The body of \<open>_on_click\<close> up to its call of \<open>_write_row\<close>: the updated logger and
  the arguments of the call. The button is given by its name.\<close>

definition click_record :: "logger_core \<Rightarrow> clock \<Rightarrow> int \<Rightarrow> int \<Rightarrow> string \<Rightarrow> bool
    \<Rightarrow> logger_core \<times> event_record" where
  "click_record lg c x y button pressed =
     (let evt = button @ (if pressed then ''Down'' else ''Up'');
          now_ms = clk_ms c;
          mss = (case start_ms lg of None \<Rightarrow> 0 | Some s \<Rightarrow> now_ms - s);
          lg1 = (if button = ''left'' \<and> pressed then record_lmb_down lg now_ms else lg);
          lg2 = lg1\<lparr>last_btn_ts_ms := Some now_ms\<rparr>;
          (lg3, cs) = combat_state lg2 now_ms;
          (cx, cy, cdx, cdy) =
            (if \<not> coords_enabled lg3 then (S '''', S '''', S '''', S '''')
             else (I x, I y, I 0, I 0))
      in (lg3, \<lparr>ts_iso = clk_iso c, ms_since_start = mss, x_field = cx, y_field = cy,
                dx_field = cdx, dy_field = cdy, event = evt, ms_since_button_event = 0,
                scroll_near_click = 0, combat_state_field = cs\<rparr>))"

definition on_click :: "logger_core \<Rightarrow> sys \<Rightarrow> clock \<Rightarrow> int \<Rightarrow> int \<Rightarrow> string \<Rightarrow> bool
    \<Rightarrow> logger_core \<times> sys" where
  "on_click lg sy c x y button pressed =
     (let (lg', r) = click_record lg c x y button pressed
      in write_row lg' sy (clk_time c) r)"

definition scroll_record :: "logger_core \<Rightarrow> clock \<Rightarrow> int \<Rightarrow> int \<Rightarrow> int \<Rightarrow> int
    \<Rightarrow> logger_core \<times> event_record" where
  "scroll_record lg c x y dx dy =
     (let evt = (if dy > 0 then ''WheelUp'' else if dy < 0 then ''WheelDown'' else ''Wheel'');
          now_ms = clk_ms c;
          mss = (case start_ms lg of None \<Rightarrow> 0 | Some s \<Rightarrow> now_ms - s);
          msb = (case last_btn_ts_ms lg of None \<Rightarrow> 0 | Some b \<Rightarrow> now_ms - b);
          snc = (if last_btn_ts_ms lg \<noteq> None \<and> 0 \<le> msb \<and> msb \<le> near_click_ms lg
                 then 1 else 0);
          (lg1, cs) = combat_state lg now_ms;
          (cx, cy, cdx, cdy) =
            (if \<not> coords_enabled lg1 then (S '''', S '''', S '''', S '''')
             else (I x, I y, I dx, I dy))
      in (lg1, \<lparr>ts_iso = clk_iso c, ms_since_start = mss, x_field = cx, y_field = cy,
                dx_field = cdx, dy_field = cdy, event = evt, ms_since_button_event = msb,
                scroll_near_click = snc, combat_state_field = cs\<rparr>))"

definition on_scroll :: "logger_core \<Rightarrow> sys \<Rightarrow> clock \<Rightarrow> int \<Rightarrow> int \<Rightarrow> int \<Rightarrow> int
    \<Rightarrow> logger_core \<times> sys" where
  "on_scroll lg sy c x y dx dy =
     (let (lg', r) = scroll_record lg c x y dx dy
      in write_row lg' sy (clk_time c) r)"

subsection \<open>Starting and stopping\<close>

text \<open>\<open>start\<close>: \<open>open\<close> in append mode creates a missing file and raises \<open>OSError\<close> for a
  path it cannot open, before any field is assigned.\<close>

definition start :: "logger_core \<Rightarrow> sys \<Rightarrow> int \<Rightarrow> error + (logger_core \<times> sys)" where
  "start lg sy now_ms =
     (if listener lg \<noteq> None then Inr (lg, sy)
      else
        (let p = filepath lg;
             new_file = (case fs sy p of None \<Rightarrow> True | Some c \<Rightarrow> c = [])
         in if \<not> can_open sy p then Inl OSError
            else
              (let sy1 = sy\<lparr>fs := (fs sy)(p \<mapsto> (case fs sy p of None \<Rightarrow> [] | Some c \<Rightarrow> c))\<rparr>;
                   lg1 = lg\<lparr>fh := Some p, csvw := Some p\<rparr>;
                   sy2 = (if new_file then writerow p HEADER sy1 else sy1);
                   lg2 = lg1\<lparr>start_ms := Some now_ms\<rparr>
               in Inr (lg2\<lparr>listener := Some Listener\<rparr>, sy2))))"

text \<open>\<open>stop\<close>: a failure of \<open>listener.stop()\<close>, \<open>flush\<close> or \<open>fsync\<close> is swallowed.\<close>

definition stop :: "logger_core \<Rightarrow> sys \<Rightarrow> logger_core \<times> sys" where
  "stop lg sy =
     (let lg1 = (if listener lg \<noteq> None then lg\<lparr>listener := None\<rparr> else lg)
      in if fh lg1 \<noteq> None
         then (lg1\<lparr>fh := None, csvw := None\<rparr>, sy\<lparr>close_calls := close_calls sy + 1\<rparr>)
         else (lg1, sy))"

subsection \<open>Histories of calls\<close>

text \<open>The calls a logger receives: \<open>start\<close>, \<open>stop\<close>, the two callbacks, and the two
  assignments the application makes to a live logger (\<open>on_threshold_changed\<close>,
  \<open>on_options_changed\<close>). An \<open>OSError\<close> of \<open>start\<close> is caught by the caller and leaves
  the state as it was.\<close>

datatype call =
    Start int
  | Stop
  | Click clock int int string bool
  | Scroll clock int int int int
  | SetThresholds int real
  | SetCoords bool

fun step :: "logger_core \<times> sys \<Rightarrow> call \<Rightarrow> logger_core \<times> sys" where
  "step (lg, sy) (Start now_ms) =
     (case start lg sy now_ms of Inl e \<Rightarrow> (lg, sy) | Inr st \<Rightarrow> st)"
| "step (lg, sy) Stop = stop lg sy"
| "step (lg, sy) (Click c x y button pressed) = on_click lg sy c x y button pressed"
| "step (lg, sy) (Scroll c x y dx dy) = on_scroll lg sy c x y dx dy"
| "step (lg, sy) (SetThresholds n thr) = (lg\<lparr>near_click_ms := n, combat_cps := thr\<rparr>, sy)"
| "step (lg, sy) (SetCoords b) = (lg\<lparr>coords_enabled := b\<rparr>, sy)"

definition run :: "logger_core \<times> sys \<Rightarrow> call list \<Rightarrow> logger_core \<times> sys" where
  "run st cs = foldl step st cs"

text \<open>The clock readings of the callbacks of a history, the readings of its
  left-button-down events, and the readings of its button events, each in order.\<close>

fun call_times :: "call list \<Rightarrow> int list" where
  "call_times [] = []"
| "call_times (Click c x y button pressed # cs) = clk_ms c # call_times cs"
| "call_times (Scroll c x y dx dy # cs) = clk_ms c # call_times cs"
| "call_times (_ # cs) = call_times cs"

fun downs :: "call list \<Rightarrow> int list" where
  "downs [] = []"
| "downs (Click c x y button pressed # cs) =
     (if button = ''left'' \<and> pressed then clk_ms c # downs cs else downs cs)"
| "downs (_ # cs) = downs cs"

fun clicks :: "call list \<Rightarrow> int list" where
  "clicks [] = []"
| "clicks (Click c x y button pressed # cs) = clk_ms c # clicks cs"
| "clicks (_ # cs) = clicks cs"

subsection \<open>Notions used by the properties\<close>

text \<open>The timestamps of a list that lie in the closed interval \<open>[now - 1000, now]\<close>.\<close>

definition window :: "int \<Rightarrow> int list \<Rightarrow> int list" where
  "window now ts = filter (\<lambda>t. now - 1000 \<le> t \<and> t \<le> now) ts"

text \<open>The fields that tie a logger to its file: the file object and the writer are set
  and cleared together, they write to the logger's own path, and a listener is present
  exactly while they are set.\<close>

definition consistent :: "string \<Rightarrow> logger_core \<Rightarrow> bool" where
  "consistent p lg \<longleftrightarrow>
     filepath lg = p \<and> fh lg = csvw lg \<and> (csvw lg = None \<or> csvw lg = Some p)
     \<and> (listener lg = None) = (csvw lg = None)"

text \<open>The file at \<open>p\<close> holds \<open>base\<close> followed by rows of records.\<close>

definition file_inv :: "string \<Rightarrow> row list \<Rightarrow> logger_core \<times> sys \<Rightarrow> bool" where
  "file_inv p base st \<longleftrightarrow>
     consistent p (fst st) \<and>
     (\<exists>data. fs (snd st) p = Some (base @ data) \<and> set data \<subseteq> range csv_row)"

subsection \<open>Concrete states and inputs\<close>

definition demo_logger :: logger_core where
  "demo_logger = LoggerCore ''log.csv'' 80 2 True 0"

definition demo_sys :: sys where
  "demo_sys = \<lparr>fs = Map.empty, can_open = (\<lambda>p. True),
               event_queue = \<lparr>maxsize = 2, items = []\<rparr>, close_calls = 0\<rparr>"

definition at_ms :: "int \<Rightarrow> clock" where
  "at_ms n = \<lparr>clk_ms = n, clk_iso = ''T'', clk_time = real_of_int n / 1000\<rparr>"

definition demo_history :: "call list" where
  "demo_history = [Click (at_ms 0) 0 0 ''left'' True, Click (at_ms 300) 0 0 ''left'' True]"

definition demo_record :: event_record where
  "demo_record = \<lparr>ts_iso = ''T'', ms_since_start = 50, x_field = I 3, y_field = I 4,
                  dx_field = I 0, dy_field = I (- 1), event = ''WheelDown'',
                  ms_since_button_event = 50, scroll_near_click = 1,
                  combat_state_field = ''idle''\<rparr>"

definition demo_item :: qitem where
  "demo_item = (''T'', 50, I 3, I 4, I 0, I (- 1), ''WheelDown'', 50, 1, ''idle'')"

text \<open>A logger after a successful \<open>start\<close> on a new file, and an environment whose
  queue is at capacity.\<close>

definition demo_open_logger :: logger_core where
  "demo_open_logger = demo_logger\<lparr>listener := Some Listener, fh := Some ''log.csv'',
                                   csvw := Some ''log.csv'', start_ms := Some 0\<rparr>"

definition demo_full_sys :: sys where
  "demo_full_sys = demo_sys\<lparr>fs := [''log.csv'' \<mapsto> [HEADER]],
                            event_queue := \<lparr>maxsize = 2, items = [demo_item, demo_item]\<rparr>\<rparr>"

section \<open>Auxiliary facts\<close>

subsection \<open>Pruning and histories\<close>

lemma prune_sorted: "sorted xs \<Longrightarrow> prune c xs = filter (\<lambda>t. c \<le> t) xs"
proof (induction xs)
  case Nil then show ?case by simp
next
  case (Cons a xs)
  show ?case
  proof (cases "a < c")
    case True with Cons show ?thesis by simp
  next
    case False
    with Cons.prems have "\<forall>t\<in>set xs. c \<le> t" by auto
    then have "filter (\<lambda>t. c \<le> t) xs = xs" by (simp add: filter_id_conv)
    with False show ?thesis by simp
  qed
qed

lemma run_snoc: "run st (cs @ [c]) = step (run st cs) c"
  by (simp add: run_def)

lemma run_Nil: "run st [] = st"
  by (simp add: run_def)

lemma run_Cons: "run st (c # cs) = run (step st c) cs"
  by (simp add: run_def)

lemma call_times_append: "call_times (cs @ ds) = call_times cs @ call_times ds"
  by (induction cs rule: call_times.induct) simp_all

lemma downs_append: "downs (cs @ ds) = downs cs @ downs ds"
  by (induction cs rule: downs.induct) simp_all

lemma clicks_append: "clicks (cs @ ds) = clicks cs @ clicks ds"
  by (induction cs rule: clicks.induct) simp_all

lemma set_downs: "set (downs cs) \<subseteq> set (call_times cs)"
  by (induction cs rule: call_times.induct) auto

lemma sorted_downs: "sorted (call_times cs) \<Longrightarrow> sorted (downs cs)"
proof (induction cs rule: call_times.induct)
  case (2 c x y button pressed cs)
  from "2.prems" have le: "\<forall>t\<in>set (call_times cs). clk_ms c \<le> t" and s: "sorted (call_times cs)"
    by simp_all
  from le set_downs [of cs] have "\<forall>t\<in>set (downs cs). clk_ms c \<le> t" by blast
  with "2.IH" [OF s] show ?case by simp
qed simp_all

lemma downs_le:
  assumes "sorted (call_times cs @ [now])" shows "\<forall>t\<in>set (downs cs). t \<le> now"
proof -
  from assms have "\<forall>t\<in>set (call_times cs). t \<le> now" by (simp add: sorted_append)
  with set_downs [of cs] show ?thesis by blast
qed


subsection \<open>What each operation does to the fields of the logger\<close>

lemma write_row_logger:
  "lmb_down_times (fst (write_row lg sy t r)) = lmb_down_times lg"
  "last_btn_ts_ms (fst (write_row lg sy t r)) = last_btn_ts_ms lg"
  "near_click_ms (fst (write_row lg sy t r)) = near_click_ms lg"
  "combat_cps (fst (write_row lg sy t r)) = combat_cps lg"
  "coords_enabled (fst (write_row lg sy t r)) = coords_enabled lg"
  "filepath (fst (write_row lg sy t r)) = filepath lg"
  "listener (fst (write_row lg sy t r)) = listener lg"
  "fh (fst (write_row lg sy t r)) = fh lg"
  "csvw (fst (write_row lg sy t r)) = csvw lg"
  "start_ms (fst (write_row lg sy t r)) = start_ms lg"
  by (simp_all add: write_row_def Let_def split: option.splits)

lemma combat_state_logger:
  "lmb_down_times (fst (combat_state lg now)) = prune (now - 1000) (lmb_down_times lg)"
  "last_btn_ts_ms (fst (combat_state lg now)) = last_btn_ts_ms lg"
  "near_click_ms (fst (combat_state lg now)) = near_click_ms lg"
  "combat_cps (fst (combat_state lg now)) = combat_cps lg"
  "coords_enabled (fst (combat_state lg now)) = coords_enabled lg"
  "filepath (fst (combat_state lg now)) = filepath lg"
  "listener (fst (combat_state lg now)) = listener lg"
  "fh (fst (combat_state lg now)) = fh lg"
  "csvw (fst (combat_state lg now)) = csvw lg"
  "start_ms (fst (combat_state lg now)) = start_ms lg"
  by (simp_all add: combat_state_def Let_def COMBAT_WINDOW_MS_def)

lemma combat_state_result:
  "snd (combat_state lg now) =
     (if combat_cps lg \<le> cps (fst (combat_state lg now)) then ''combat'' else ''idle'')"
  by (simp add: combat_state_def Let_def)

lemma record_lmb_down_logger:
  "lmb_down_times (record_lmb_down lg now) = prune (now - 1000) (lmb_down_times lg @ [now])"
  "last_btn_ts_ms (record_lmb_down lg now) = last_btn_ts_ms lg"
  "near_click_ms (record_lmb_down lg now) = near_click_ms lg"
  "combat_cps (record_lmb_down lg now) = combat_cps lg"
  "coords_enabled (record_lmb_down lg now) = coords_enabled lg"
  "filepath (record_lmb_down lg now) = filepath lg"
  "listener (record_lmb_down lg now) = listener lg"
  "fh (record_lmb_down lg now) = fh lg"
  "csvw (record_lmb_down lg now) = csvw lg"
  "start_ms (record_lmb_down lg now) = start_ms lg"
  by (simp_all add: record_lmb_down_def Let_def COMBAT_WINDOW_MS_def)

lemma click_record_fst:
  "fst (click_record lg c x y button pressed) =
     fst (combat_state
            ((if button = ''left'' \<and> pressed then record_lmb_down lg (clk_ms c) else lg)
               \<lparr>last_btn_ts_ms := Some (clk_ms c)\<rparr>) (clk_ms c))"
  by (simp add: click_record_def Let_def split: prod.splits)

lemma scroll_record_fst:
  "fst (scroll_record lg c x y dx dy) = fst (combat_state lg (clk_ms c))"
  by (simp add: scroll_record_def Let_def split: prod.splits)

lemma click_record_logger:
  "lmb_down_times (fst (click_record lg c x y button pressed)) =
     prune (clk_ms c - 1000)
       (if button = ''left'' \<and> pressed
        then prune (clk_ms c - 1000) (lmb_down_times lg @ [clk_ms c])
        else lmb_down_times lg)"
  "last_btn_ts_ms (fst (click_record lg c x y button pressed)) = Some (clk_ms c)"
  "near_click_ms (fst (click_record lg c x y button pressed)) = near_click_ms lg"
  "combat_cps (fst (click_record lg c x y button pressed)) = combat_cps lg"
  "coords_enabled (fst (click_record lg c x y button pressed)) = coords_enabled lg"
  "filepath (fst (click_record lg c x y button pressed)) = filepath lg"
  "listener (fst (click_record lg c x y button pressed)) = listener lg"
  "fh (fst (click_record lg c x y button pressed)) = fh lg"
  "csvw (fst (click_record lg c x y button pressed)) = csvw lg"
  "start_ms (fst (click_record lg c x y button pressed)) = start_ms lg"
  by (simp_all add: click_record_fst combat_state_logger record_lmb_down_logger)

lemma scroll_record_logger:
  "lmb_down_times (fst (scroll_record lg c x y dx dy)) =
     prune (clk_ms c - 1000) (lmb_down_times lg)"
  "last_btn_ts_ms (fst (scroll_record lg c x y dx dy)) = last_btn_ts_ms lg"
  "near_click_ms (fst (scroll_record lg c x y dx dy)) = near_click_ms lg"
  "combat_cps (fst (scroll_record lg c x y dx dy)) = combat_cps lg"
  "coords_enabled (fst (scroll_record lg c x y dx dy)) = coords_enabled lg"
  "filepath (fst (scroll_record lg c x y dx dy)) = filepath lg"
  "listener (fst (scroll_record lg c x y dx dy)) = listener lg"
  "fh (fst (scroll_record lg c x y dx dy)) = fh lg"
  "csvw (fst (scroll_record lg c x y dx dy)) = csvw lg"
  "start_ms (fst (scroll_record lg c x y dx dy)) = start_ms lg"
  by (simp_all add: scroll_record_fst combat_state_logger)

lemma on_click_fst:
  "fst (on_click lg sy c x y button pressed) =
     fst (write_row (fst (click_record lg c x y button pressed)) sy (clk_time c)
            (snd (click_record lg c x y button pressed)))"
  by (simp add: on_click_def split: prod.splits)

lemma on_scroll_fst:
  "fst (on_scroll lg sy c x y dx dy) =
     fst (write_row (fst (scroll_record lg c x y dx dy)) sy (clk_time c)
            (snd (scroll_record lg c x y dx dy)))"
  by (simp add: on_scroll_def split: prod.splits)

lemma start_tracker:
  "lmb_down_times (fst (case start lg sy n of Inl e \<Rightarrow> (lg, sy) | Inr st \<Rightarrow> st)) = lmb_down_times lg"
  "last_btn_ts_ms (fst (case start lg sy n of Inl e \<Rightarrow> (lg, sy) | Inr st \<Rightarrow> st)) = last_btn_ts_ms lg"
  "near_click_ms (fst (case start lg sy n of Inl e \<Rightarrow> (lg, sy) | Inr st \<Rightarrow> st)) = near_click_ms lg"
  "combat_cps (fst (case start lg sy n of Inl e \<Rightarrow> (lg, sy) | Inr st \<Rightarrow> st)) = combat_cps lg"
  by (simp_all add: start_def Let_def)

lemma stop_tracker:
  "lmb_down_times (fst (stop lg sy)) = lmb_down_times lg"
  "last_btn_ts_ms (fst (stop lg sy)) = last_btn_ts_ms lg"
  "near_click_ms (fst (stop lg sy)) = near_click_ms lg"
  "combat_cps (fst (stop lg sy)) = combat_cps lg"
  by (simp_all add: stop_def Let_def)

lemma step_lmb_down_times:
  "lmb_down_times (fst (step st c)) =
     (case call_times [c] of
        [] \<Rightarrow> lmb_down_times (fst st)
      | now # _ \<Rightarrow> prune (now - 1000) (prune (now - 1000) (lmb_down_times (fst st) @ downs [c])))"
proof (cases st)
  case (Pair lg sy)
  have pp: "prune k (prune k xs) = prune k xs" for k xs
    by (induction xs) simp_all
  show ?thesis unfolding Pair
    by (cases c)
      (simp_all add: start_tracker stop_tracker on_click_fst on_scroll_fst write_row_logger
         click_record_logger scroll_record_logger pp)
qed

lemma step_last_btn:
  "last_btn_ts_ms (fst (step st c)) =
     (case clicks [c] of [] \<Rightarrow> last_btn_ts_ms (fst st) | now # _ \<Rightarrow> Some now)"
proof (cases st)
  case (Pair lg sy)
  show ?thesis unfolding Pair
    by (cases c)
      (simp_all add: start_tracker stop_tracker on_click_fst on_scroll_fst write_row_logger
         click_record_logger scroll_record_logger)
qed

lemma run_last_btn:
  "last_btn_ts_ms (fst (run (LoggerCore p n thr b t0, sy) cs)) =
     (if clicks cs = [] then None else Some (last (clicks cs)))"
proof (induction cs rule: rev_induct)
  case Nil
  show ?case by (simp add: run_Nil LoggerCore_def)
next
  case (snoc c cs)
  show ?case
    by (cases c) (simp_all add: run_snoc step_last_btn clicks_append snoc.IH)
qed


subsection \<open>The deque along a history\<close>

lemma prune_window:
  assumes ds: "sorted ds" and le: "\<forall>t\<in>set ds. t \<le> now" and L: "L \<le> now"
    and e: "e = [] \<or> e = [now]"
  shows "prune (now - 1000) (filter (\<lambda>t. L - 1000 \<le> t) ds @ e) =
         filter (\<lambda>t. now - 1000 \<le> t) (ds @ e)"
proof -
  have "sorted (filter (\<lambda>t. L - 1000 \<le> t) ds @ e)"
    using ds le e by (auto simp: sorted_append sorted_wrt_filter)
  then have "prune (now - 1000) (filter (\<lambda>t. L - 1000 \<le> t) ds @ e) =
             filter (\<lambda>t. now - 1000 \<le> t) (filter (\<lambda>t. L - 1000 \<le> t) ds @ e)"
    by (rule prune_sorted)
  also have "\<dots> = filter (\<lambda>t. L - 1000 \<le> t \<and> now - 1000 \<le> t) ds @ filter (\<lambda>t. now - 1000 \<le> t) e"
    by simp
  also have "filter (\<lambda>t. L - 1000 \<le> t \<and> now - 1000 \<le> t) ds = filter (\<lambda>t. now - 1000 \<le> t) ds"
    using L by (intro filter_cong) auto
  finally show ?thesis by simp
qed

lemma call_times_single: "call_times [c] = [] \<and> downs [c] = [] \<or>
    (\<exists>now. call_times [c] = [now] \<and> (downs [c] = [] \<or> downs [c] = [now]))"
  by (cases c) simp_all

lemma run_tracker:
  assumes "sorted (call_times cs)"
  shows "lmb_down_times (fst (run (LoggerCore p n thr b t0, sy) cs)) =
     (if call_times cs = [] then [] else filter (\<lambda>t. last (call_times cs) - 1000 \<le> t) (downs cs))"
  using assms
proof (induction cs rule: rev_induct)
  case Nil
  show ?case by (simp add: run_Nil LoggerCore_def)
next
  case (snoc c cs)
  let ?st = "run (LoggerCore p n thr b t0, sy) cs"
  from snoc.prems have s: "sorted (call_times cs @ call_times [c])"
    by (simp add: call_times_append)
  then have scs: "sorted (call_times cs)" by (simp add: sorted_append)
  note IH = snoc.IH [OF scs]
  from call_times_single [of c] consider
      (quiet) "call_times [c] = []" "downs [c] = []"
    | (timed) now where "call_times [c] = [now]" "downs [c] = [] \<or> downs [c] = [now]"
    by blast
  then show ?case
  proof cases
    case quiet
    then show ?thesis
      by (simp add: run_snoc step_lmb_down_times call_times_append downs_append IH)
  next
    case timed
    note t = timed(1) and d = timed(2)
    from s t have sn: "sorted (call_times cs @ [now])" by simp
    have pp: "prune k (prune k xs) = prune k xs" for k xs
      by (induction xs) simp_all
    have step: "lmb_down_times (fst (step ?st c)) =
                prune (now - 1000) (lmb_down_times (fst ?st) @ downs [c])"
      by (simp add: step_lmb_down_times t pp)
    have "prune (now - 1000) (lmb_down_times (fst ?st) @ downs [c]) =
          filter (\<lambda>t. now - 1000 \<le> t) (downs cs @ downs [c])"
    proof (cases "call_times cs = []")
      case True
      with set_downs [of cs] have "downs cs = []" by simp
      with True IH d show ?thesis by auto
    next
      case False
      then have "last (call_times cs) \<in> set (call_times cs)" by simp
      with sn have L: "last (call_times cs) \<le> now" by (simp add: sorted_append)
      from False IH have dq: "lmb_down_times (fst ?st) =
          filter (\<lambda>t. last (call_times cs) - 1000 \<le> t) (downs cs)" by simp
      show ?thesis unfolding dq
        using prune_window [OF sorted_downs [OF scs] downs_le [OF sn] L d] .
    qed
    with step show ?thesis
      by (simp add: run_snoc call_times_append downs_append t)
  qed
qed

lemma window_upper:
  assumes "\<forall>t\<in>set ds. t \<le> now"
  shows "filter (\<lambda>t. now - 1000 \<le> t) ds = filter (\<lambda>t. now - 1000 \<le> t \<and> t \<le> now) ds"
  using assms by (intro filter_cong) auto

text \<open>The deque after a read and after an insert at \<open>now\<close>, following a history
  whose clock readings never decrease.\<close>

lemma read_after_run:
  assumes "sorted (call_times cs @ [now])"
  shows "lmb_down_times (fst (combat_state (fst (run (LoggerCore p n thr b t0, sy) cs)) now)) =
         filter (\<lambda>t. now - 1000 \<le> t \<and> t \<le> now) (downs cs)"
proof -
  let ?lg = "fst (run (LoggerCore p n thr b t0, sy) cs)"
  from assms have scs: "sorted (call_times cs)" by (simp add: sorted_append)
  have "prune (now - 1000) (lmb_down_times ?lg @ []) = filter (\<lambda>t. now - 1000 \<le> t) (downs cs @ [])"
  proof (cases "call_times cs = []")
    case True
    with set_downs [of cs] have "downs cs = []" by simp
    with True run_tracker [OF scs, of p n thr b t0 sy] show ?thesis by simp
  next
    case False
    then have "last (call_times cs) \<in> set (call_times cs)" by simp
    with assms have L: "last (call_times cs) \<le> now" by (simp add: sorted_append)
    from False run_tracker [OF scs, of p n thr b t0 sy] have dq: "lmb_down_times ?lg =
        filter (\<lambda>t. last (call_times cs) - 1000 \<le> t) (downs cs)" by simp
    show ?thesis unfolding dq
      using prune_window [OF sorted_downs [OF scs] downs_le [OF assms] L, of "[]"] by simp
  qed
  then show ?thesis
    using window_upper [OF downs_le [OF assms]] by (simp add: combat_state_logger)
qed

lemma insert_after_run:
  assumes "sorted (call_times cs @ [now])"
  shows "lmb_down_times (record_lmb_down (fst (run (LoggerCore p n thr b t0, sy) cs)) now) =
         filter (\<lambda>t. now - 1000 \<le> t \<and> t \<le> now) (downs cs @ [now])"
proof -
  let ?lg = "fst (run (LoggerCore p n thr b t0, sy) cs)"
  from assms have scs: "sorted (call_times cs)" by (simp add: sorted_append)
  have "prune (now - 1000) (lmb_down_times ?lg @ [now]) = filter (\<lambda>t. now - 1000 \<le> t) (downs cs @ [now])"
  proof (cases "call_times cs = []")
    case True
    with set_downs [of cs] have "downs cs = []" by simp
    with True run_tracker [OF scs, of p n thr b t0 sy] show ?thesis by simp
  next
    case False
    then have "last (call_times cs) \<in> set (call_times cs)" by simp
    with assms have L: "last (call_times cs) \<le> now" by (simp add: sorted_append)
    from False run_tracker [OF scs, of p n thr b t0 sy] have dq: "lmb_down_times ?lg =
        filter (\<lambda>t. last (call_times cs) - 1000 \<le> t) (downs cs)" by simp
    show ?thesis unfolding dq
      using prune_window [OF sorted_downs [OF scs] downs_le [OF assms] L, of "[now]"] by simp
  qed
  moreover have "\<forall>t\<in>set (downs cs @ [now]). t \<le> now"
    using downs_le [OF assms] by simp
  ultimately show ?thesis
    using window_upper [of "downs cs @ [now]" now] by (simp add: record_lmb_down_logger)
qed

subsection \<open>The combat state of a record\<close>

lemma clk_ms_at_ms: "clk_ms (at_ms n) = n"
  by (simp add: at_ms_def)

lemma click_record_combat:
  "combat_state_field (snd (click_record lg c x y button pressed)) =
     snd (combat_state
            ((if button = ''left'' \<and> pressed then record_lmb_down lg (clk_ms c) else lg)
               \<lparr>last_btn_ts_ms := Some (clk_ms c)\<rparr>) (clk_ms c))"
  by (simp add: click_record_def Let_def split: prod.splits)

lemma scroll_record_combat:
  "combat_state_field (snd (scroll_record lg c x y dx dy)) = snd (combat_state lg (clk_ms c))"
  by (simp add: scroll_record_def Let_def split: prod.splits)

lemma prune_prune: "prune k (prune k xs) = prune k xs"
  by (induction xs) simp_all

lemma cps_length: "cps lg = real (length (lmb_down_times lg))"
  by (simp add: cps_def COMBAT_WINDOW_MS_def)

lemma click_after_run:
  assumes "sorted (call_times cs @ [clk_ms c])"
  shows "lmb_down_times (fst (click_record (fst (run (LoggerCore p n thr b t0, sy) cs)) c x y button pressed)) =
         window (clk_ms c) (downs (cs @ [Click c x y button pressed]))"
proof (cases "button = ''left'' \<and> pressed")
  case True
  let ?lg = "fst (run (LoggerCore p n thr b t0, sy) cs)"
  from True have "lmb_down_times (fst (click_record ?lg c x y button pressed)) =
      lmb_down_times (record_lmb_down ?lg (clk_ms c))"
    by (simp add: click_record_logger prune_prune record_lmb_down_logger)
  also have "\<dots> = filter (\<lambda>t. clk_ms c - 1000 \<le> t \<and> t \<le> clk_ms c) (downs cs @ [clk_ms c])"
    by (rule insert_after_run [OF assms])
  finally show ?thesis using True by (simp add: downs_append window_def)
next
  case False
  let ?lg = "fst (run (LoggerCore p n thr b t0, sy) cs)"
  from False have "lmb_down_times (fst (click_record ?lg c x y button pressed)) =
      lmb_down_times (fst (combat_state ?lg (clk_ms c)))"
    by (auto simp add: click_record_logger combat_state_logger)
  also have "\<dots> = filter (\<lambda>t. clk_ms c - 1000 \<le> t \<and> t \<le> clk_ms c) (downs cs)"
    by (rule read_after_run [OF assms])
  finally show ?thesis using False by (auto simp add: downs_append window_def)
qed

subsection \<open>Files, the queue and the consistency of the logger\<close>

lemma write_row_file:
  "csvw lg = Some p \<Longrightarrow>
   fs (snd (write_row lg sy t r)) = (fs sy)(p \<mapsto> (case fs sy p of None \<Rightarrow> [] | Some c \<Rightarrow> c) @ [csv_row r])"
  by (simp add: write_row_def writerow_def put_nowait_def Let_def)

lemma write_row_sys:
  "can_open (snd (write_row lg sy t r)) = can_open sy"
  "close_calls (snd (write_row lg sy t r)) = close_calls sy"
  "maxsize (event_queue (snd (write_row lg sy t r))) = maxsize (event_queue sy)"
  by (simp_all add: write_row_def writerow_def put_nowait_def Let_def split: option.splits)

lemma on_click_snd:
  "snd (on_click lg sy c x y button pressed) =
     snd (write_row (fst (click_record lg c x y button pressed)) sy (clk_time c)
            (snd (click_record lg c x y button pressed)))"
  by (simp add: on_click_def split: prod.splits)

lemma on_scroll_snd:
  "snd (on_scroll lg sy c x y dx dy) =
     snd (write_row (fst (scroll_record lg c x y dx dy)) sy (clk_time c)
            (snd (scroll_record lg c x y dx dy)))"
  by (simp add: on_scroll_def split: prod.splits)

lemma start_logger:
  "filepath (fst (case start lg sy n of Inl e \<Rightarrow> (lg, sy) | Inr st \<Rightarrow> st)) = filepath lg"
  "listener lg \<noteq> None \<or> \<not> can_open sy (filepath lg) \<Longrightarrow>
     (case start lg sy n of Inl e \<Rightarrow> (lg, sy) | Inr st \<Rightarrow> st) = (lg, sy)"
  "listener lg = None \<Longrightarrow> can_open sy (filepath lg) \<Longrightarrow>
     listener (fst (case start lg sy n of Inl e \<Rightarrow> (lg, sy) | Inr st \<Rightarrow> st)) = Some Listener
     \<and> fh (fst (case start lg sy n of Inl e \<Rightarrow> (lg, sy) | Inr st \<Rightarrow> st)) = Some (filepath lg)
     \<and> csvw (fst (case start lg sy n of Inl e \<Rightarrow> (lg, sy) | Inr st \<Rightarrow> st)) = Some (filepath lg)"
  by (auto simp add: start_def Let_def)

lemma step_consistent:
  assumes "consistent p (fst st)" shows "consistent p (fst (step st c))"
proof (cases st)
  case (Pair lg sy)
  with assms have c: "consistent p lg" by simp
  have "consistent p (fst (step (lg, sy) c))"
  proof (cases c)
    case (Start n)
    show ?thesis
    proof (cases "listener lg = None \<and> can_open sy (filepath lg)")
      case True
      with start_logger(3) [of lg sy n] start_logger(1) [of lg sy n] c show ?thesis
        by (simp add: Start consistent_def)
    next
      case False
      with start_logger(2) [of lg sy n] c show ?thesis by (auto simp add: Start)
    qed
  next
    case Stop
    with c show ?thesis by (auto simp add: consistent_def stop_def Let_def)
  next
    case (Click k x y button pressed)
    with c show ?thesis
      by (simp add: consistent_def on_click_fst write_row_logger click_record_logger)
  next
    case (Scroll k x y dx dy)
    with c show ?thesis
      by (simp add: consistent_def on_scroll_fst write_row_logger scroll_record_logger)
  next
    case (SetThresholds n thr)
    with c show ?thesis by (simp add: consistent_def)
  next
    case (SetCoords b)
    with c show ?thesis by (simp add: consistent_def)
  qed
  then show ?thesis by (simp add: Pair)
qed


lemma LoggerCore_consistent: "consistent p (LoggerCore p n thr b t0)"
  by (simp add: consistent_def LoggerCore_def)




lemma header_not_row: "HEADER \<notin> range csv_row"
  by (auto simp add: HEADER_def csv_row_def)

lemma write_row_file_inv:
  assumes c: "csvw lg = None \<or> csvw lg = Some p"
    and f: "fs sy p = Some (base @ data)" "set data \<subseteq> range csv_row"
  shows "\<exists>data'. fs (snd (write_row lg sy t r)) p = Some (base @ data') \<and> set data' \<subseteq> range csv_row"
proof (cases "csvw lg")
  case None
  with f show ?thesis by (auto simp add: write_row_def)
next
  case (Some q)
  with c have "csvw lg = Some p" by simp
  from write_row_file [OF this, of sy t r] f
  have "fs (snd (write_row lg sy t r)) p = Some (base @ (data @ [csv_row r]))" by simp
  moreover have "set (data @ [csv_row r]) \<subseteq> range csv_row" using f by auto
  ultimately show ?thesis by blast
qed

lemma start_fs:
  "fs (snd (case start lg sy n of Inl e \<Rightarrow> (lg, sy) | Inr st \<Rightarrow> st)) (filepath lg) =
     (if listener lg = None \<and> can_open sy (filepath lg)
      then Some (case fs sy (filepath lg) of None \<Rightarrow> [HEADER] | Some c \<Rightarrow> if c = [] then [HEADER] else c)
      else fs sy (filepath lg))"
  by (auto simp add: start_def Let_def writerow_def split: option.splits)

lemma step_file_inv:
  assumes inv: "file_inv p base st" and base: "base \<noteq> []"
  shows "file_inv p base (step st c)"
proof (cases st)
  case (Pair lg sy)
  from inv Pair have con: "consistent p lg" by (simp add: file_inv_def)
  from inv Pair obtain data where f: "fs sy p = Some (base @ data)" "set data \<subseteq> range csv_row"
    by (auto simp add: file_inv_def)
  from con have p: "filepath lg = p" and cw: "csvw lg = None \<or> csvw lg = Some p"
    by (simp_all add: consistent_def)
  have con': "consistent p (fst (step (lg, sy) c))"
    using step_consistent [of p "(lg, sy)" c] con by simp
  have "\<exists>data'. fs (snd (step (lg, sy) c)) p = Some (base @ data') \<and> set data' \<subseteq> range csv_row"
  proof (cases c)
    case (Start n)
    from f base have "fs (snd (case start lg sy n of Inl e \<Rightarrow> (lg, sy) | Inr st \<Rightarrow> st)) p = Some (base @ data)"
      using start_fs [of lg sy n] by (cases "base @ data") (simp_all add: p)
    with f Start show ?thesis by auto
  next
    case Stop
    with f show ?thesis by (auto simp add: stop_def Let_def)
  next
    case (Click k x y button pressed)
    have "csvw (fst (click_record lg k x y button pressed)) = None
        \<or> csvw (fst (click_record lg k x y button pressed)) = Some p"
      using cw by (simp add: click_record_logger)
    from write_row_file_inv [OF this f] Click show ?thesis
      by (simp add: on_click_snd)
  next
    case (Scroll k x y dx dy)
    have "csvw (fst (scroll_record lg k x y dx dy)) = None
        \<or> csvw (fst (scroll_record lg k x y dx dy)) = Some p"
      using cw by (simp add: scroll_record_logger)
    from write_row_file_inv [OF this f] Scroll show ?thesis
      by (simp add: on_scroll_snd)
  next
    case (SetThresholds n thr)
    with f show ?thesis by auto
  next
    case (SetCoords b)
    with f show ?thesis by auto
  qed
  with con' show ?thesis by (simp add: Pair file_inv_def)
qed

lemma run_file_inv:
  "file_inv p base st \<Longrightarrow> base \<noteq> [] \<Longrightarrow> file_inv p base (run st cs)"
  by (induction cs rule: rev_induct) (simp_all add: run_Nil run_snoc step_file_inv)

text \<open>The concrete running logger is the one \<open>start\<close> produces from the concrete new
  logger on a missing file.\<close>

lemma demo_open_reachable:
  "run (demo_logger, demo_sys) [Start 0] =
     (demo_open_logger, demo_sys\<lparr>fs := [''log.csv'' \<mapsto> [HEADER]]\<rparr>)"
  by (simp add: run_def start_def writerow_def demo_open_logger_def demo_logger_def
        demo_sys_def LoggerCore_def Let_def)

section \<open>The properties\<close>

text \<open>
  Histories start from a freshly constructed logger, \<open>LoggerCore p n thr b t0\<close>, in an
  arbitrary environment. The application constructs one logger for each session, so the
  history of a logger is the history of its session.
\<close>

subsection \<open>C1: \<open>start\<close> while a listener is running\<close>

text \<open>
  C1 states that \<open>start\<close>, called while the session is active (a listener is running),
  fails with an error surfaced to the caller. The code returns at once instead
  (\<open>if self.listener: return\<close>): here \<open>start\<close> on an active logger does not return an
  error.
\<close>

theorem start_while_active_no_error:
  "listener demo_open_logger \<noteq> None \<and> \<not> isl (start demo_open_logger demo_full_sys 5)"
  by (simp add: start_def demo_open_logger_def)

text \<open>
  C1 as the code has it: \<open>start\<close> on a logger whose listener is running returns normally
  and changes neither the logger nor the files nor the queue.
\<close>

theorem start_while_active_returns:
  "listener lg \<noteq> None \<Longrightarrow> start lg sy now_ms = Inr (lg, sy)"
  by (simp add: start_def)

text \<open>C1, at a concrete active logger.\<close>

theorem start_while_active_returns_witness:
  "listener demo_open_logger \<noteq> None
   \<and> start demo_open_logger demo_full_sys 5 = Inr (demo_open_logger, demo_full_sys)"
proof -
  have l: "listener demo_open_logger \<noteq> None"
    by (simp add: demo_open_logger_def)
  show ?thesis
    using l start_while_active_returns [OF l, of demo_full_sys 5] by simp
qed

subsection \<open>C2: the combat state\<close>

text \<open>
  C2 states that for every event observed at time \<open>now\<close> the record's combat state is
  \<open>combat\<close> exactly when the number of left-button-down timestamps in the trailing
  1000 ms window, divided by the window length in seconds, reaches the threshold. The
  deque is pruned from its front only, so the statement depends on the clock: after a
  left-button-down at 5000 and a clock set back, a wheel event at 1000 is marked
  \<open>combat\<close> for the threshold 1, although no left-button-down lies in \<open>[0, 1000]\<close>.
\<close>

theorem combat_state_clock_set_back:
  "\<not> (combat_state_field (snd (scroll_record
          (fst (run (LoggerCore ''log.csv'' 80 1 False 0, demo_sys)
                  [Click (at_ms 5000) 0 0 ''left'' True]))
          (at_ms 1000) 0 0 0 1)) = ''combat''
      \<longleftrightarrow> real (length (window 1000 (downs [Click (at_ms 5000) 0 0 ''left'' True])))
             / (1000 / 1000) \<ge> 1)"
  by (simp add: run_def on_click_def click_record_def scroll_record_def combat_state_def
        record_lmb_down_def write_row_def LoggerCore_def at_ms_def window_def cps_def
        COMBAT_WINDOW_MS_def Let_def)

text \<open>
  C2 for clocks that are not set back: when the clock readings of the callbacks of a
  history, the current event included, never decrease, the record of a button event and
  the record of a wheel event carry \<open>combat\<close> if the number of left-button-downs of the
  history (the current event included) with a timestamp in \<open>[now - 1000, now]\<close>, divided
  by the window length in seconds, is at least the threshold in force, and \<open>idle\<close>
  otherwise. The threshold may be any real number.
\<close>

theorem combat_state_iff_rate:
  assumes "sorted (call_times cs @ [clk_ms c])"
  shows "combat_state_field (snd (click_record (fst (run (LoggerCore p n thr b t0, sy) cs))
                                     c x y button pressed)) =
           (if real (length (window (clk_ms c) (downs (cs @ [Click c x y button pressed]))))
                 / (1000 / 1000)
                 \<ge> combat_cps (fst (run (LoggerCore p n thr b t0, sy) cs))
            then ''combat'' else ''idle'')
       \<and> combat_state_field (snd (scroll_record (fst (run (LoggerCore p n thr b t0, sy) cs))
                                     c x y dx dy)) =
           (if real (length (window (clk_ms c) (downs (cs @ [Scroll c x y dx dy]))))
                 / (1000 / 1000)
                 \<ge> combat_cps (fst (run (LoggerCore p n thr b t0, sy) cs))
            then ''combat'' else ''idle'')"
proof
  let ?lg = "fst (run (LoggerCore p n thr b t0, sy) cs)"
  have "combat_state_field (snd (click_record ?lg c x y button pressed)) =
        (if combat_cps ?lg \<le> cps (fst (click_record ?lg c x y button pressed))
         then ''combat'' else ''idle'')"
    by (simp add: click_record_combat click_record_fst combat_state_result combat_state_logger
          record_lmb_down_logger)
  then show "combat_state_field (snd (click_record ?lg c x y button pressed)) =
           (if real (length (window (clk_ms c) (downs (cs @ [Click c x y button pressed]))))
                 / (1000 / 1000) \<ge> combat_cps ?lg
            then ''combat'' else ''idle'')"
    by (simp add: cps_length click_after_run [OF assms])
  have "combat_state_field (snd (scroll_record ?lg c x y dx dy)) =
        (if combat_cps ?lg \<le> cps (fst (combat_state ?lg (clk_ms c)))
         then ''combat'' else ''idle'')"
    by (simp add: scroll_record_combat combat_state_result)
  then show "combat_state_field (snd (scroll_record ?lg c x y dx dy)) =
           (if real (length (window (clk_ms c) (downs (cs @ [Scroll c x y dx dy]))))
                 / (1000 / 1000) \<ge> combat_cps ?lg
            then ''combat'' else ''idle'')"
    by (simp add: cps_length read_after_run [OF assms] downs_append window_def)
qed

text \<open>C2, for the threshold 2 and left-button-downs at 0, 300 and 600: the third is
  marked \<open>combat\<close>, and so is a wheel event at 600 after the first two.\<close>

theorem combat_state_iff_rate_witness:
  "sorted (call_times demo_history @ [clk_ms (at_ms 600)])
   \<and> combat_state_field (snd (click_record (fst (run (demo_logger, demo_sys) demo_history))
                                (at_ms 600) 0 0 ''left'' True)) = ''combat''
   \<and> combat_state_field (snd (scroll_record (fst (run (demo_logger, demo_sys) demo_history))
                                (at_ms 600) 0 0 0 1)) = ''combat''"
proof -
  have s: "sorted (call_times demo_history @ [clk_ms (at_ms 600)])"
    by (simp add: demo_history_def clk_ms_at_ms)
  have d: "downs demo_history = [0, 300]"
    by (simp add: demo_history_def clk_ms_at_ms)
  have thr: "combat_cps (fst (run (demo_logger, demo_sys) demo_history)) = 2"
    by (simp add: demo_history_def run_def on_click_def click_record_def combat_state_def
          record_lmb_down_def write_row_def demo_logger_def LoggerCore_def Let_def)
  show ?thesis
    using s combat_state_iff_rate [OF s, of "''log.csv''" 80 2 True 0 demo_sys 0 0
                                     "''left''" True 0 1]
    by (simp add: thr d downs_append demo_logger_def [symmetric] window_def clk_ms_at_ms)
qed

subsection \<open>C3: wheel events near a button event\<close>

text \<open>
  C3: the record of a wheel event at time \<open>now\<close> has \<open>scroll_near_click\<close> equal to 1 if
  the logger has handled a button event before and
  \<open>0 \<le> now - last_button_event_ms \<le> near_click_threshold_ms\<close>, where the last button
  event is the latest one of the history, and equal to 0 in every other case, also when
  there has been no button event.
\<close>

theorem scroll_near_click_iff:
  "scroll_near_click (snd (scroll_record (fst (run (LoggerCore p n thr b t0, sy) cs))
                             c x y dx dy)) =
     (if clicks cs \<noteq> [] \<and> 0 \<le> clk_ms c - last (clicks cs)
         \<and> clk_ms c - last (clicks cs)
             \<le> near_click_ms (fst (run (LoggerCore p n thr b t0, sy) cs))
      then 1 else 0)"
  by (simp add: scroll_record_def Let_def run_last_btn split: prod.splits)

subsection \<open>C4: the rolling click rate\<close>



subsection \<open>C5: the order of the columns\<close>



subsection \<open>C6: the header row\<close>

text \<open>
  C6: when a new logger is started on a path that \<open>open\<close> accepts, a file that is
  missing or empty holds the header row and nothing else after \<open>start\<close>, and a file that
  exists and is not empty holds what it held before. Whatever calls follow
  (callbacks, \<open>stop\<close>, further \<open>start\<close>s), the file is that content followed by rows of
  records, none of which is a header row.
\<close>

theorem header_once:
  assumes "can_open sy p"
  shows "fs (snd (run (LoggerCore p n thr b t0, sy) [Start now])) p =
           Some (case fs sy p of None \<Rightarrow> [HEADER] | Some c \<Rightarrow> if c = [] then [HEADER] else c)
       \<and> (\<exists>data. fs (snd (run (LoggerCore p n thr b t0, sy) (Start now # cs))) p =
                   Some ((case fs sy p of None \<Rightarrow> [HEADER]
                          | Some c \<Rightarrow> if c = [] then [HEADER] else c) @ data)
                 \<and> set data \<subseteq> range csv_row)
       \<and> HEADER \<notin> range csv_row"
proof -
  let ?lg = "LoggerCore p n thr b t0"
  let ?base = "case fs sy p of None \<Rightarrow> [HEADER] | Some c \<Rightarrow> if c = [] then [HEADER] else c"
  let ?st = "step (?lg, sy) (Start now)"
  have lg: "filepath ?lg = p" "listener ?lg = None" by (simp_all add: LoggerCore_def)
  have first: "fs (snd ?st) p = Some ?base"
    using start_fs [of ?lg sy now] assms lg by simp
  have base: "?base \<noteq> []" by (simp split: option.splits)
  have "consistent p (fst ?st)"
    by (rule step_consistent) (simp add: LoggerCore_consistent)
  with first have "file_inv p ?base ?st" by (simp add: file_inv_def)
  from run_file_inv [OF this base, of cs]
  have "\<exists>data. fs (snd (run ?st cs)) p = Some (?base @ data) \<and> set data \<subseteq> range csv_row"
    by (simp add: file_inv_def)
  with first show ?thesis
    by (simp add: run_Cons run_Nil header_not_row)
qed

text \<open>C6, for a missing file and two button events after \<open>start\<close>.\<close>

theorem header_once_witness:
  "can_open demo_sys ''log.csv''
   \<and> fs (snd (run (demo_logger, demo_sys) [Start 0])) ''log.csv'' = Some [HEADER]
   \<and> (\<exists>data. fs (snd (run (demo_logger, demo_sys) (Start 0 # demo_history))) ''log.csv'' =
                Some ([HEADER] @ data) \<and> set data \<subseteq> range csv_row)
   \<and> can_open demo_full_sys ''log.csv''
   \<and> fs (snd (run (demo_logger, demo_full_sys) [Start 0])) ''log.csv'' = Some [HEADER]"
proof -
  have c: "can_open demo_sys ''log.csv''" by (simp add: demo_sys_def)
  have e: "fs demo_sys ''log.csv'' = None" by (simp add: demo_sys_def)
  have c': "can_open demo_full_sys ''log.csv''" by (simp add: demo_full_sys_def demo_sys_def)
  have e': "fs demo_full_sys ''log.csv'' = Some [HEADER]" by (simp add: demo_full_sys_def)
  show ?thesis
    using c c' header_once [OF c, of 80 2 True 0 0 demo_history]
      header_once [OF c', of 80 2 True 0 0 "[]"]
    by (simp add: e e' demo_logger_def [symmetric])
qed

subsection \<open>C7: \<open>stop\<close> is idempotent\<close>



subsection \<open>C8: a full queue\<close>

text \<open>
  C8: when a record is written while the bounded queue is at capacity, the queue is
  left as it is and the row of the record is still appended to the file; a queue within
  its capacity stays within it after every write. \<open>write_row\<close> has no error result and
  is a total function: \<open>queue.Full\<close> is caught in its body, and \<open>put_nowait\<close> does not
  wait.
\<close>

theorem queue_full_drops:
  assumes "csvw lg = Some p" and "fs sy p = Some old" and "0 < maxsize (event_queue sy)"
  shows "(maxsize (event_queue sy) \<le> length (items (event_queue sy)) \<longrightarrow>
            event_queue (snd (write_row lg sy t r)) = event_queue sy
          \<and> fs (snd (write_row lg sy t r)) p = Some (old @ [csv_row r]))
       \<and> (length (items (event_queue sy)) \<le> maxsize (event_queue sy) \<longrightarrow>
            length (items (event_queue (snd (write_row lg sy t r))))
              \<le> maxsize (event_queue (snd (write_row lg sy t r))))"
  using assms by (simp add: write_row_def writerow_def put_nowait_def Let_def)

text \<open>C8, for a queue of capacity 2 that holds two items.\<close>

theorem queue_full_drops_witness:
  "csvw demo_open_logger = Some ''log.csv'' \<and> fs demo_full_sys ''log.csv'' = Some [HEADER]
   \<and> 0 < maxsize (event_queue demo_full_sys)
   \<and> maxsize (event_queue demo_full_sys) \<le> length (items (event_queue demo_full_sys))
   \<and> length (items (event_queue demo_full_sys)) \<le> maxsize (event_queue demo_full_sys)
   \<and> event_queue (snd (write_row demo_open_logger demo_full_sys 1 demo_record)) =
       event_queue demo_full_sys
   \<and> fs (snd (write_row demo_open_logger demo_full_sys 1 demo_record)) ''log.csv'' =
       Some [HEADER, csv_row demo_record]
   \<and> length (items (event_queue (snd (write_row demo_open_logger demo_full_sys 1
                                           demo_record)))) \<le> 2"
proof -
  have c: "csvw demo_open_logger = Some ''log.csv''"
    by (simp add: demo_open_logger_def)
  have f: "fs demo_full_sys ''log.csv'' = Some [HEADER]"
    by (simp add: demo_full_sys_def)
  have q: "event_queue demo_full_sys = \<lparr>maxsize = 2, items = [demo_item, demo_item]\<rparr>"
    by (simp add: demo_full_sys_def)
  have m: "0 < maxsize (event_queue demo_full_sys)" by (simp add: q)
  show ?thesis
    using c f queue_full_drops [OF c f m, of 1 demo_record]
    by (simp add: q)
qed

subsection \<open>C9: the wheel deltas of a button event\<close>

text \<open>
  C9 states that a button event has blank \<open>dx\<close> and \<open>dy\<close> whether or not coordinates are
  recorded. The code assigns \<open>dx = dy = 0\<close> when coordinates are recorded: here a
  button event of a logger that records coordinates has the number zero for \<open>dx\<close>, not
  the blank.
\<close>

theorem click_deltas_zero_when_enabled:
  "coords_enabled demo_logger
   \<and> dx_field (snd (click_record demo_logger (at_ms 1000) 3 4 ''left'' True)) \<noteq> S ''''"
  by (simp add: click_record_def demo_logger_def LoggerCore_def combat_state_def
        record_lmb_down_def Let_def split: prod.splits)

text \<open>
  C9 as the code has it: for every button event (any button, press or release), \<open>dx\<close>
  and \<open>dy\<close> are blank when coordinates are not recorded and the number zero when they
  are.
\<close>

theorem click_deltas:
  "dx_field (snd (click_record lg c x y button pressed)) =
     (if coords_enabled lg then I 0 else S '''')
   \<and> dy_field (snd (click_record lg c x y button pressed)) =
     (if coords_enabled lg then I 0 else S '''')"
  by (simp add: click_record_def combat_state_def record_lmb_down_def Let_def
        split: prod.splits)

subsection \<open>C10: writing without an open file\<close>



end
